theory Spec2Isabelle
  imports
    Main
    "HOL-Library.Multiset"
    "HOL-Library.Product_Lexorder"
    "HOL-Library.List_Lexorder"
begin

section \<open>Poker hand evaluation: the model of \<^verbatim>\<open>find_winners/core.py\<close>\<close>

text \<open>
  The Python module is embedded function by function. Exceptions are values of the
  type \<open>error\<close>, returned on the left of a sum; the mutable attribute \<open>self.cards\<close> of
  the evaluator is threaded through the extractors as part of a record.
\<close>

subsection \<open>Constants and exceptions\<close>

definition SUITS :: string where
  "SUITS = ''CDHS''"

definition VALUES :: string where
  "VALUES = ''23456789TJQKA''"

datatype rank =
  royal_flush | straight_flush | four_of_a_kind | full_house | flush
  | straight | three_of_a_kind | two_pairs | pair | high_card

definition RANKS :: "rank list" where
  "RANKS = [royal_flush, straight_flush, four_of_a_kind, full_house, flush,
            straight, three_of_a_kind, two_pairs, pair, high_card]"

text \<open>
  The exceptions the module can raise: an out-of-range index, the \<open>ValueError\<close> of the
  card constructor (with its message), a missing dictionary key, and the \<open>TypeError\<close>
  of using \<open>None\<close> or a single card where a list is expected.
\<close>

datatype error = IndexError | ValueError string | KeyError char | TypeError

definition bindE :: "error + 'a \<Rightarrow> ('a \<Rightarrow> error + 'b) \<Rightarrow> error + 'b" where
  "bindE m f = (case m of Inl e \<Rightarrow> Inl e | Inr x \<Rightarrow> f x)"

subsection \<open>Cards\<close>

record card =
  card_value :: char
  card_suit :: char

text \<open>
  \<open>Card.__init__\<close>: \<open>code[0]\<close> and \<open>code[1]\<close> are read first (each may raise
  \<open>IndexError\<close>), then the value and the suit are checked against the domains.
\<close>

definition Card :: "string \<Rightarrow> error + card" where
  "Card code =
     (if length code < 1 then Inl IndexError
      else let v = code ! 0 in
        if length code < 2 then Inl IndexError
        else let s = code ! 1 in
          if v \<notin> set VALUES then Inl (ValueError (v # '' is not a valid card value''))
          else if s \<notin> set SUITS then Inl (ValueError (s # '' is not a valid card suit''))
          else Inr \<lparr>card_value = v, card_suit = s\<rparr>)"

text \<open>\<open>Card.__repr__\<close>: the value followed by the suit.\<close>

definition repr :: "card \<Rightarrow> string" where
  "repr c = [card_value c, card_suit c]"

text \<open>\<open>str.find\<close> on a single character: the first index, or \<open>-1\<close>.\<close>

fun find_from :: "int \<Rightarrow> string \<Rightarrow> char \<Rightarrow> int" where
  "find_from i [] c = -1"
| "find_from i (x # xs) c = (if x = c then i else find_from (i + 1) xs c)"

definition Card_sort_key :: "card \<Rightarrow> int" where
  "Card_sort_key c = find_from 0 VALUES (card_value c)"

text \<open>The invariant the constructor establishes for every card it returns.\<close>

definition valid_card :: "card \<Rightarrow> bool" where
  "valid_card c = (card_value c \<in> set VALUES \<and> card_suit c \<in> set SUITS)"

subsection \<open>Arrangement helpers\<close>

text \<open>
  A Python dictionary keeps its keys in insertion order, and \<open>values()\<close> and \<open>items()\<close>
  are read in that order below: it is an association list. \<open>d[k].append(c)\<close> raises
  \<open>KeyError\<close> when the key is missing.
\<close>

type_synonym dict = "(char \<times> card list) list"

fun dict_append :: "dict \<Rightarrow> char \<Rightarrow> card \<Rightarrow> error + dict" where
  "dict_append [] k c = Inl (KeyError k)"
| "dict_append ((k', l) # d) k c =
     (if k' = k then Inr ((k', l @ [c]) # d)
      else bindE (dict_append d k c) (\<lambda>d'. Inr ((k', l) # d')))"

fun dict_get :: "dict \<Rightarrow> char \<Rightarrow> error + card list" where
  "dict_get [] k = Inl (KeyError k)"
| "dict_get ((k', l) # d) k = (if k' = k then Inr l else dict_get d k)"

fun arrange_loop :: "(card \<Rightarrow> char) \<Rightarrow> card list \<Rightarrow> dict \<Rightarrow> error + dict" where
  "arrange_loop f [] result = Inr result"
| "arrange_loop f (c # cs) result =
     bindE (dict_append result (f c) c) (arrange_loop f cs)"

definition arrange_by_suit :: "card list \<Rightarrow> error + dict" where
  "arrange_by_suit card_set = arrange_loop card_suit card_set (map (\<lambda>s. (s, [])) SUITS)"

definition arrange_by_value :: "card list \<Rightarrow> error + dict" where
  "arrange_by_value card_set = arrange_loop card_value card_set (map (\<lambda>v. (v, [])) VALUES)"

text \<open>
  \<open>sorted(xs, key=k, reverse=True)\<close>: Python reverses the list, sorts it stably in
  ascending order and reverses the result, so elements with equal keys keep their
  relative order.
\<close>

definition sorted_reverse :: "('a \<Rightarrow> 'k::linorder) \<Rightarrow> 'a list \<Rightarrow> 'a list" where
  "sorted_reverse k xs = rev (sort_key k (rev xs))"

definition sort_by_value :: "card list \<Rightarrow> card list" where
  "sort_by_value card_set = sorted_reverse Card_sort_key card_set"

text \<open>
  \<open>group_by_same_value\<close>: the key of an item is the pair of the length of its list and
  the item's dictionary key, which is a one-character string: Python compares it by
  code point.
\<close>

definition group_by_same_value :: "dict \<Rightarrow> card list list" where
  "group_by_same_value by_value =
     (let items = sorted_reverse (\<lambda>item. (length (snd item), (of_char (fst item) :: nat))) by_value
      in map snd (filter (\<lambda>item. length (snd item) \<noteq> 0) items))"

fun all_same_suit :: "card list \<Rightarrow> bool" where
  "all_same_suit [] = True"
| "all_same_suit (c0 # rest) = list_all (\<lambda>c. card_suit c = card_suit c0) rest"

subsection \<open>The hand evaluator\<close>

text \<open>
  The attributes of a \<open>HandEvaluator\<close>. Only \<open>cards\<close> is assigned after
  construction; it is \<open>None\<close> or a list of cards.
\<close>

record evaluator =
  hand :: "card list"
  cards :: "card list option"
  sorted_by_value :: "card list"
  by_suit :: dict
  by_value :: dict
  groups :: "card list list"

text \<open>
  \<open>complete_hand\<close>: the loop over \<open>self.sorted_by_value\<close> appends each card that is not
  yet in \<open>self.cards\<close> and stops when the list has five cards. With \<open>self.cards = None\<close>
  the membership test raises \<open>TypeError\<close> at the first card.

  \<open>Card\<close> defines no \<open>__eq__\<close>, so Python's \<open>in\<close> compares cards by identity, and the
  model compares them by value and suit. The only caller that reaches \<open>complete_hand\<close>
  is \<open>extract_two_pairs\<close>, where \<open>self.cards\<close> holds every card of the hand that has
  one of two values: there a card of the hand is in the list exactly when a card of the
  same value and suit is.
\<close>

fun complete_loop :: "card list \<Rightarrow> card list \<Rightarrow> card list" where
  "complete_loop [] cs = cs"
| "complete_loop (c # rest) cs =
     (if c \<notin> set cs then
        (let cs' = cs @ [c] in if length cs' = 5 then cs' else complete_loop rest cs')
      else complete_loop rest cs)"

definition complete_hand :: "evaluator \<Rightarrow> error + evaluator" where
  "complete_hand h =
     (case cards h of
        None \<Rightarrow> (if sorted_by_value h = [] then Inr h else Inl TypeError)
      | Some cs \<Rightarrow> Inr (h\<lparr>cards := Some (complete_loop (sorted_by_value h) cs)\<rparr>))"

text \<open>
  \<open>extract_n_of_a_kind\<close> compares \<open>self.groups[0][0]\<close>, which is a card, with the
  integer \<open>n\<close>. A \<open>Card\<close> has no \<open>__eq__\<close>, so \<open>!=\<close> falls back to identity and a card
  is never equal to an integer: \<open>card_ne_int\<close> is constantly true. The code after the
  guard would assign the single card \<open>self.groups[0][1]\<close> to \<open>self.cards\<close> and fail in
  \<open>complete_hand\<close>, whose membership test needs a list.
\<close>

definition card_ne_int :: "card \<Rightarrow> int \<Rightarrow> bool" where
  "card_ne_int c n = True"

definition extract_n_of_a_kind :: "int \<Rightarrow> evaluator \<Rightarrow> error + (bool \<times> evaluator)" where
  "extract_n_of_a_kind n h =
     (case groups h of
        [] \<Rightarrow> Inl IndexError
      | g0 # _ \<Rightarrow>
          (case g0 of
             [] \<Rightarrow> Inl IndexError
           | c0 # _ \<Rightarrow>
               if card_ne_int c0 n then Inr (False, h)
               else if length g0 < 2 then Inl IndexError
               else Inl TypeError))"

definition extract_four_of_a_kind :: "evaluator \<Rightarrow> error + (bool \<times> evaluator)" where
  "extract_four_of_a_kind h = extract_n_of_a_kind 4 h"

definition extract_three_of_a_kind :: "evaluator \<Rightarrow> error + (bool \<times> evaluator)" where
  "extract_three_of_a_kind h = extract_n_of_a_kind 3 h"

definition extract_pair :: "evaluator \<Rightarrow> error + (bool \<times> evaluator)" where
  "extract_pair h = extract_n_of_a_kind 2 h"

definition extract_full_house :: "evaluator \<Rightarrow> error + (bool \<times> evaluator)" where
  "extract_full_house h =
     (case groups h of
        [] \<Rightarrow> Inl IndexError
      | g0 # gs \<Rightarrow>
          if length g0 = 3 then
            (case gs of
               [] \<Rightarrow> Inl IndexError
             | g1 # _ \<Rightarrow>
                 if 2 \<le> length g1 then Inr (True, h\<lparr>cards := Some (g0 @ take 2 g1)\<rparr>)
                 else Inr (False, h))
          else Inr (False, h))"

definition extract_flush :: "evaluator \<Rightarrow> error + (bool \<times> evaluator)" where
  "extract_flush h =
     (let fl = filter (\<lambda>lst. length lst = 5) (map snd (by_suit h)) in
      if fl = [] then Inr (False, h)
      else
        (let fl' = sorted_reverse (\<lambda>x. Card_sort_key (x ! 0)) fl
         in Inr (True, h\<lparr>cards := Some (fl' ! 0)\<rparr>)))"

definition sequential :: string where
  "sequential = ''AQKJT98765432A''"

definition sequences :: "string list" where
  "sequences = map (\<lambda>i. take 5 (drop i sequential)) [0 ..< length sequential - 4]"

fun all_present :: "dict \<Rightarrow> string \<Rightarrow> error + bool" where
  "all_present bv [] = Inr True"
| "all_present bv (v # vs) =
     bindE (dict_get bv v) (\<lambda>l. if 0 < length l then all_present bv vs else Inr False)"

fun first_cards :: "dict \<Rightarrow> string \<Rightarrow> error + card list" where
  "first_cards bv [] = Inr []"
| "first_cards bv (v # vs) =
     bindE (dict_get bv v) (\<lambda>l.
       case l of
         [] \<Rightarrow> Inl IndexError
       | c # _ \<Rightarrow> bindE (first_cards bv vs) (\<lambda>cs. Inr (c # cs)))"

fun straight_loop :: "string list \<Rightarrow> evaluator \<Rightarrow> error + (bool \<times> evaluator)" where
  "straight_loop [] h = Inr (False, h)"
| "straight_loop (sequence # rest) h =
     bindE (all_present (by_value h) sequence) (\<lambda>found.
       if found then
         bindE (first_cards (by_value h) sequence) (\<lambda>cs. Inr (True, h\<lparr>cards := Some cs\<rparr>))
       else straight_loop rest h)"

definition extract_straight :: "evaluator \<Rightarrow> error + (bool \<times> evaluator)" where
  "extract_straight h = straight_loop sequences h"

definition extract_straight_flush :: "evaluator \<Rightarrow> error + (bool \<times> evaluator)" where
  "extract_straight_flush h =
     bindE (extract_straight h) (\<lambda>(found, h').
       if found then
         (case cards h' of
            None \<Rightarrow> Inl TypeError
          | Some cs \<Rightarrow>
              if all_same_suit cs then Inr (True, h')
              else Inr (False, h'\<lparr>cards := None\<rparr>))
       else Inr (False, h'\<lparr>cards := None\<rparr>))"

definition extract_royal_flush :: "evaluator \<Rightarrow> error + (bool \<times> evaluator)" where
  "extract_royal_flush h =
     bindE (extract_straight_flush h) (\<lambda>(found, h').
       if found then
         (case cards h' of
            None \<Rightarrow> Inl TypeError
          | Some cs \<Rightarrow>
              if cs = [] then Inl IndexError
              else if card_value (last cs) = CHR ''T'' then Inr (True, h')
              else Inr (False, h'\<lparr>cards := None\<rparr>))
       else Inr (False, h'\<lparr>cards := None\<rparr>))"

definition extract_two_pairs :: "evaluator \<Rightarrow> error + (bool \<times> evaluator)" where
  "extract_two_pairs h =
     (case groups h of
        [] \<Rightarrow> Inl IndexError
      | g0 # gs \<Rightarrow>
          if length g0 = 2 then
            (case gs of
               [] \<Rightarrow> Inl IndexError
             | g1 # _ \<Rightarrow>
                 if length g1 = 2 then
                   bindE (complete_hand (h\<lparr>cards := Some (g0 @ g1)\<rparr>)) (\<lambda>h'. Inr (True, h'))
                 else Inr (False, h))
          else Inr (False, h))"

definition extract_high_card :: "evaluator \<Rightarrow> error + (bool \<times> evaluator)" where
  "extract_high_card h = Inr (True, h\<lparr>cards := Some (take 5 (sorted_by_value h))\<rparr>)"

text \<open>\<open>extract_rank\<close> looks the method up by the name of the rank.\<close>

fun extract_rank :: "rank \<Rightarrow> evaluator \<Rightarrow> error + (bool \<times> evaluator)" where
  "extract_rank royal_flush h = extract_royal_flush h"
| "extract_rank straight_flush h = extract_straight_flush h"
| "extract_rank four_of_a_kind h = extract_four_of_a_kind h"
| "extract_rank full_house h = extract_full_house h"
| "extract_rank flush h = extract_flush h"
| "extract_rank straight h = extract_straight h"
| "extract_rank three_of_a_kind h = extract_three_of_a_kind h"
| "extract_rank two_pairs h = extract_two_pairs h"
| "extract_rank pair h = extract_pair h"
| "extract_rank high_card h = extract_high_card h"

text \<open>
  \<open>evaluate\<close>: the first rank whose extractor succeeds is returned with \<open>self.cards\<close>;
  when none succeeds the method returns \<open>None\<close>.
\<close>

fun evaluate_loop ::
  "rank list \<Rightarrow> evaluator \<Rightarrow> error + ((rank \<times> card list option) option \<times> evaluator)" where
  "evaluate_loop [] h = Inr (None, h)"
| "evaluate_loop (r # rs) h =
     bindE (extract_rank r h) (\<lambda>(found, h').
       if found then Inr (Some (r, cards h'), h') else evaluate_loop rs h')"

definition evaluate ::
  "evaluator \<Rightarrow> error + ((rank \<times> card list option) option \<times> evaluator)" where
  "evaluate h = evaluate_loop RANKS h"

text \<open>\<open>HandEvaluator.__init__\<close> builds the views of the hand and evaluates it once.\<close>

definition HandEvaluator :: "card list \<Rightarrow> error + evaluator" where
  "HandEvaluator hnd =
     (let sbv = sort_by_value hnd in
      bindE (arrange_by_suit sbv) (\<lambda>bs.
      bindE (arrange_by_value hnd) (\<lambda>bv.
        let h = \<lparr>hand = hnd, cards = None, sorted_by_value = sbv, by_suit = bs,
                 by_value = bv, groups = group_by_same_value bv\<rparr>
        in bindE (evaluate h) (\<lambda>(_, h'). Inr h'))))"

subsection \<open>Comparison keys and winners\<close>

text \<open>\<open>RANKS.index(rank)\<close>; every rank is in the list.\<close>

fun index_of :: "'a list \<Rightarrow> 'a \<Rightarrow> error + int" where
  "index_of [] x = Inl (ValueError ''is not in list'')"
| "index_of (y # ys) x = (if y = x then Inr 0 else bindE (index_of ys x) (\<lambda>i. Inr (i + 1)))"

text \<open>
  The first two statements of \<open>hand_key\<close>: construct the evaluator, evaluate again
  and unpack the pair. Unpacking \<open>None\<close> raises \<open>TypeError\<close>.
\<close>

definition hand_eval :: "card list \<Rightarrow> error + (rank \<times> card list option)" where
  "hand_eval hnd =
     bindE (HandEvaluator hnd) (\<lambda>h.
     bindE (evaluate h) (\<lambda>(res, _).
       case res of None \<Rightarrow> Inl TypeError | Some rc \<Rightarrow> Inr rc))"

definition hand_key :: "card list \<Rightarrow> error + (int \<times> int list)" where
  "hand_key hnd =
     bindE (hand_eval hnd) (\<lambda>(rnk, cs).
     bindE (index_of RANKS rnk) (\<lambda>i.
       case cs of
         None \<Rightarrow> Inl TypeError
       | Some cs' \<Rightarrow> Inr (int (length RANKS) - i, map Card_sort_key cs')))"

fun mapE :: "('a \<Rightarrow> error + 'b) \<Rightarrow> 'a list \<Rightarrow> error + 'b list" where
  "mapE f [] = Inr []"
| "mapE f (x # xs) = bindE (f x) (\<lambda>y. bindE (mapE f xs) (\<lambda>ys. Inr (y # ys)))"

text \<open>
  \<open>str.split()\<close> cuts at runs of whitespace and drops empty words; the whitespace
  characters of the ASCII range are the ones modelled.
\<close>

definition is_space :: "char \<Rightarrow> bool" where
  "is_space c = ((of_char c :: nat) \<in> {9, 10, 11, 12, 13, 28, 29, 30, 31, 32})"

fun split :: "string \<Rightarrow> string \<Rightarrow> string list" where
  "split w [] = (if w = [] then [] else [w])"
| "split w (c # cs) =
     (if is_space c then (if w = [] then split [] cs else w # split [] cs)
      else split (w @ [c]) cs)"

definition into_hand :: "string \<Rightarrow> error + card list" where
  "into_hand hnd = mapE Card (split [] hnd)"

text \<open>
  The values compared by \<open>key == max_rank\<close> in \<open>find_winners\<close> have different
  shapes, so the comparison is modelled on Python values: integers, lists and tuples,
  equal when they have the same shape and equal components.
\<close>

datatype pyval = PInt int | PList "pyval list" | PTuple "pyval list"

definition py_key :: "int \<times> int list \<Rightarrow> pyval" where
  "py_key k = PTuple [PInt (fst k), PList (map PInt (snd k))]"

definition py_entry :: "(int \<times> int list) \<times> nat \<Rightarrow> pyval" where
  "py_entry e = PTuple [py_key (fst e), PInt (int (snd e))]"

text \<open>
  The loop of \<open>find_winners\<close> over \<open>hands_ranks[1:]\<close>; \<open>max_rank\<close> is the whole first
  entry \<open>hands_ranks[0]\<close>, the pair of a key and an index.
\<close>

fun winners_loop :: "(int \<times> int list) \<times> nat \<Rightarrow> ((int \<times> int list) \<times> nat) list \<Rightarrow> nat list" where
  "winners_loop max_rank [] = []"
| "winners_loop max_rank ((key, idx) # rest) =
     (if py_key key = py_entry max_rank then idx # winners_loop max_rank rest else [])"

definition find_winners :: "card list list \<Rightarrow> error + nat list" where
  "find_winners hands =
     bindE (mapE (\<lambda>(idx, hnd). bindE (hand_key hnd) (\<lambda>k. Inr (k, idx))) (enumerate 0 hands))
       (\<lambda>hands_ranks.
          case sorted_reverse (\<lambda>x. x) hands_ranks of
            [] \<Rightarrow> Inl IndexError
          | max_rank # rest \<Rightarrow> Inr (snd max_rank # winners_loop max_rank rest))"

text \<open>
  For stating results: an evaluation with every selected card written as its code.
\<close>

definition reported ::
  "error + (rank \<times> card list option) \<Rightarrow> error + (rank \<times> string list option)" where
  "reported res = map_sum id (\<lambda>(r, cs). (r, map_option (map repr) cs)) res"

subsection \<open>What the views of an evaluator hold\<close>

text \<open>
  The definitions below are not part of the program: they state what the constructor
  computes for a hand of valid cards, and what an extractor may return. A hand is valid
  when each of its cards satisfies the invariant of the card constructor.
\<close>

definition valid_hand :: "card list \<Rightarrow> bool" where
  "valid_hand hnd = list_all valid_card hnd"

text \<open>The cards of one value, in the order of the hand, and the two dictionaries.\<close>

definition of_value :: "card list \<Rightarrow> char \<Rightarrow> card list" where
  "of_value hnd v = filter (\<lambda>c. card_value c = v) hnd"

definition value_view :: "card list \<Rightarrow> dict" where
  "value_view hnd = map (\<lambda>v. (v, filter (\<lambda>c. card_value c = v) hnd)) VALUES"

definition suit_view :: "card list \<Rightarrow> dict" where
  "suit_view cs = map (\<lambda>s. (s, filter (\<lambda>c. card_suit c = s) cs)) SUITS"

text \<open>
  The attributes set by the constructor; \<open>cards\<close> is left free, since the extractors
  assign it.
\<close>

definition views :: "card list \<Rightarrow> evaluator \<Rightarrow> bool" where
  "views hnd h =
     (hand h = hnd \<and> sorted_by_value h = sort_by_value hnd
      \<and> by_suit h = suit_view (sort_by_value hnd)
      \<and> by_value h = value_view hnd
      \<and> groups h = group_by_same_value (value_view hnd))"

text \<open>
  A selection is a part of the hand, each card taken at most as often as the hand holds
  it, and has five cards when the hand has at least five.
\<close>

definition selection_ok :: "card list \<Rightarrow> card list \<Rightarrow> bool" where
  "selection_ok hnd cs = (mset cs \<subseteq># mset hnd \<and> (5 \<le> length hnd \<longrightarrow> length cs = 5))"

text \<open>
  What an extractor, and then \<open>evaluate\<close>, may return on a valid hand: an \<open>IndexError\<close>
  only for fewer than five cards, and otherwise the unchanged views with, on success,
  such a selection.
\<close>

definition step_ok :: "card list \<Rightarrow> error + (bool \<times> evaluator) \<Rightarrow> bool" where
  "step_ok hnd res =
     ((res = Inl IndexError \<and> length hnd < 5)
      \<or> (\<exists>found h'. res = Inr (found, h') \<and> views hnd h'
            \<and> (found \<longrightarrow> (\<exists>cs. cards h' = Some cs \<and> selection_ok hnd cs))))"

definition eval_ok ::
  "card list \<Rightarrow> error + ((rank \<times> card list option) option \<times> evaluator) \<Rightarrow> bool" where
  "eval_ok hnd res =
     ((res = Inl IndexError \<and> length hnd < 5)
      \<or> (\<exists>r cs h'. res = Inr (Some (r, Some cs), h') \<and> views hnd h' \<and> selection_ok hnd cs))"

section \<open>Properties\<close>

subsection \<open>Card construction\<close>

text \<open>
  C10. Card construction looks at the first two characters only. A code of length at
  least 2 whose first character is a value symbol and whose second is a suit symbol is
  accepted, whatever follows, and the card reports just those two characters; a code of
  length 2 with a symbol outside its domain fails with \<open>ValueError\<close>; a code shorter
  than 2 fails with \<open>IndexError\<close>.
\<close>

theorem Card_first_two_characters:
  "(2 \<le> length code \<and> code ! 0 \<in> set VALUES \<and> code ! 1 \<in> set SUITS \<longrightarrow>
      Card code = Inr \<lparr>card_value = code ! 0, card_suit = code ! 1\<rparr> \<and>
      map_sum id repr (Card code) = Inr (take 2 code))
   \<and> (2 \<le> length code \<longrightarrow> Card code = Card (take 2 code))
   \<and> (length code = 2 \<and> (code ! 0 \<notin> set VALUES \<or> code ! 1 \<notin> set SUITS) \<longrightarrow>
      (\<exists>msg. Card code = Inl (ValueError msg)))
   \<and> (length code < 2 \<longrightarrow> Card code = Inl IndexError)"
proof -
  have two: "take 2 code = [code ! 0, code ! 1]" if "2 \<le> length code"
  proof -
    from that obtain a b rest where "code = a # b # rest"
      by (cases code; cases "tl code") auto
    then show ?thesis by simp
  qed
  show ?thesis
    by (auto simp: Card_def Let_def repr_def two)
qed

theorem Card_first_two_characters_witness:
  "Card ''TSxyz'' = Inr \<lparr>card_value = CHR ''T'', card_suit = CHR ''S''\<rparr>
   \<and> map_sum id repr (Card ''TSxyz'') = Inr ''TS''
   \<and> Card ''TSxyz'' = Card ''TS''
   \<and> (\<exists>msg. Card ''1S'' = Inl (ValueError msg))
   \<and> Card ''T'' = Inl IndexError"
proof -
  have long: "Card ''TSxyz'' = Inr \<lparr>card_value = CHR ''T'', card_suit = CHR ''S''\<rparr>
      \<and> map_sum id repr (Card ''TSxyz'') = Inr ''TS''
      \<and> Card ''TSxyz'' = Card ''TS''"
    using Card_first_two_characters [of "''TSxyz''"]
    by (simp add: VALUES_def SUITS_def Card_def repr_def)
  have bad: "\<exists>msg. Card ''1S'' = Inl (ValueError msg)"
    using Card_first_two_characters [of "''1S''"]
    by (simp add: VALUES_def SUITS_def)
  have short: "Card ''T'' = Inl IndexError"
    using Card_first_two_characters [of "''T''"]
    by simp
  from long bad short show ?thesis
    by blast
qed

subsection \<open>The arrangement helpers on valid hands\<close>

lemma bindE_Inr [simp]: "bindE (Inr x) f = f x"
  by (simp add: bindE_def)

lemma bindE_Inl [simp]: "bindE (Inl e) f = Inl e"
  by (simp add: bindE_def)

lemma dict_append_present:
  "k \<in> set ks \<Longrightarrow> distinct ks \<Longrightarrow>
   dict_append (map (\<lambda>v. (v, g v)) ks) k c
     = Inr (map (\<lambda>v. (v, if v = k then g v @ [c] else g v)) ks)"
proof (induction ks)
  case Nil
  then show ?case by simp
next
  case (Cons a ks)
  show ?case
  proof (cases "a = k")
    case True
    with Cons.prems have "k \<notin> set ks" by simp
    then have "map (\<lambda>v. (v, if v = k then g v @ [c] else g v)) ks = map (\<lambda>v. (v, g v)) ks"
      by (intro map_cong) auto
    with True show ?thesis by simp
  next
    case False
    with Cons show ?thesis by simp
  qed
qed

lemma arrange_loop_filter:
  "\<forall>c \<in> set cs. f c \<in> set ks \<Longrightarrow> distinct ks \<Longrightarrow>
   arrange_loop f cs (map (\<lambda>v. (v, g v)) ks)
     = Inr (map (\<lambda>v. (v, g v @ filter (\<lambda>c. f c = v) cs)) ks)"
proof (induction cs arbitrary: g)
  case Nil
  then show ?case by simp
next
  case (Cons c cs)
  have "arrange_loop f (c # cs) (map (\<lambda>v. (v, g v)) ks)
      = arrange_loop f cs (map (\<lambda>v. (v, if v = f c then g v @ [c] else g v)) ks)"
    using Cons.prems by (simp add: dict_append_present)
  also have "\<dots> = Inr (map (\<lambda>v. (v, (if v = f c then g v @ [c] else g v)
                                    @ filter (\<lambda>c. f c = v) cs)) ks)"
    using Cons.prems by (intro Cons.IH) auto
  also have "\<dots> = Inr (map (\<lambda>v. (v, g v @ filter (\<lambda>c'. f c' = v) (c # cs))) ks)"
    by auto
  finally show ?case .
qed

lemma distinct_VALUES: "distinct VALUES"
  by (simp add: VALUES_def)

lemma distinct_SUITS: "distinct SUITS"
  by (simp add: SUITS_def)

lemma arrange_by_value_valid:
  "valid_hand hnd \<Longrightarrow> arrange_by_value hnd = Inr (value_view hnd)"
  using arrange_loop_filter [of hnd card_value VALUES "\<lambda>_. []"]
  by (simp add: arrange_by_value_def value_view_def valid_hand_def valid_card_def
      list_all_iff distinct_VALUES)

lemma arrange_by_suit_valid:
  "valid_hand cs \<Longrightarrow> arrange_by_suit cs = Inr (suit_view cs)"
  using arrange_loop_filter [of cs card_suit SUITS "\<lambda>_. []"]
  by (simp add: arrange_by_suit_def suit_view_def valid_hand_def valid_card_def
      list_all_iff distinct_SUITS)

lemma mset_sorted_reverse [simp]: "mset (sorted_reverse k xs) = mset xs"
  by (simp add: sorted_reverse_def)

lemma set_sorted_reverse [simp]: "set (sorted_reverse k xs) = set xs"
  by (simp add: sorted_reverse_def)

lemma length_sorted_reverse [simp]: "length (sorted_reverse k xs) = length xs"
  by (simp add: sorted_reverse_def)

lemma mset_sort_by_value [simp]: "mset (sort_by_value hnd) = mset hnd"
  by (simp add: sort_by_value_def)

lemma valid_hand_sort_by_value: "valid_hand (sort_by_value hnd) = valid_hand hnd"
  by (simp add: valid_hand_def list_all_iff sort_by_value_def)

lemma dict_get_view:
  "v \<in> set ks \<Longrightarrow> dict_get (map (\<lambda>v. (v, g v)) ks) v = Inr (g v)"
  by (induction ks) auto

lemma value_view_of_value: "value_view hnd = map (\<lambda>v. (v, of_value hnd v)) VALUES"
  by (simp add: value_view_def of_value_def)

subsection \<open>The clusters\<close>

lemma groups_shape:
  "\<exists>vs. distinct vs \<and> set vs = {v \<in> set VALUES. of_value hnd v \<noteq> []}
     \<and> group_by_same_value (value_view hnd) = map (of_value hnd) vs"
proof -
  define items where
    "items = sorted_reverse (\<lambda>item. (length (snd item), (of_char (fst item) :: nat)))
               (value_view hnd)"
  define kept where "kept = filter (\<lambda>item. length (snd item) \<noteq> 0) items"
  have set_items: "set items = set (value_view hnd)"
    by (simp add: items_def)
  have "mset (map fst items) = mset (map fst (value_view hnd))"
    by (simp add: items_def)
  also have "map fst (value_view hnd) = VALUES"
    by (simp add: value_view_of_value comp_def)
  finally have "distinct (map fst items)"
    using distinct_VALUES mset_eq_imp_distinct_iff by blast
  then have d: "distinct (map fst kept)"
    unfolding kept_def by (rule distinct_map_filter)
  have snd_fst: "snd item = of_value hnd (fst item)" if "item \<in> set items" for item
    using that set_items by (auto simp: value_view_of_value)
  have "map snd kept = map (\<lambda>item. of_value hnd (fst item)) kept"
    by (rule map_cong) (auto simp: kept_def snd_fst)
  then have g: "group_by_same_value (value_view hnd) = map (of_value hnd) (map fst kept)"
    by (simp add: group_by_same_value_def Let_def items_def kept_def comp_def)
  have "set (map fst kept) = {v \<in> set VALUES. of_value hnd v \<noteq> []}"
    by (auto simp: kept_def set_items value_view_of_value image_iff)
  with d g show ?thesis by blast
qed

subsection \<open>The cards of a window\<close>

lemma all_present_view:
  "set w \<subseteq> set VALUES \<Longrightarrow>
   all_present (value_view hnd) w = Inr (\<forall>v \<in> set w. of_value hnd v \<noteq> [])"
  by (induction w) (auto simp: value_view_of_value dict_get_view)

lemma first_cards_view:
  "set w \<subseteq> set VALUES \<Longrightarrow> \<forall>v \<in> set w. of_value hnd v \<noteq> [] \<Longrightarrow>
   first_cards (value_view hnd) w = Inr (map (\<lambda>v. hd (of_value hnd v)) w)"
  by (induction w) (auto simp: value_view_of_value dict_get_view split: list.splits)

lemma hd_of_value:
  "of_value hnd v \<noteq> [] \<Longrightarrow> hd (of_value hnd v) \<in> set hnd \<and> card_value (hd (of_value hnd v)) = v"
proof -
  assume "of_value hnd v \<noteq> []"
  then have "hd (of_value hnd v) \<in> set (of_value hnd v)" by simp
  then show ?thesis by (simp add: of_value_def)
qed

lemma distinct_subset_mset:
  "distinct xs \<Longrightarrow> set xs \<subseteq> set ys \<Longrightarrow> mset xs \<subseteq># mset ys"
proof (rule mset_subset_eqI)
  fix a
  assume d: "distinct xs" and s: "set xs \<subseteq> set ys"
  show "count (mset xs) a \<le> count (mset ys) a"
  proof (cases "a \<in> set xs")
    case True
    with d have "count (mset xs) a = 1" by (simp add: distinct_count_atmost_1)
    moreover from True s have "a \<in># mset ys" by auto
    then have "1 \<le> count (mset ys) a" by (simp add: Suc_le_eq)
    ultimately show ?thesis by simp
  next
    case False
    then have "a \<notin># mset xs" by simp
    then have "count (mset xs) a = 0" by (simp only: not_in_iff)
    then show ?thesis by linarith
  qed
qed

lemma window_cards:
  assumes "distinct w" and "\<forall>v \<in> set w. of_value hnd v \<noteq> []"
  shows "mset (map (\<lambda>v. hd (of_value hnd v)) w) \<subseteq># mset hnd"
proof -
  let ?cs = "map (\<lambda>v. hd (of_value hnd v)) w"
  have "map card_value ?cs = w"
    using assms(2) by (induction w) (auto simp: hd_of_value)
  with assms(1) have "distinct (map card_value ?cs)" by simp
  then have "distinct ?cs" by (simp only: distinct_map)
  moreover have "set ?cs \<subseteq> set hnd"
    using assms(2) by (auto simp: hd_of_value)
  ultimately show ?thesis by (rule distinct_subset_mset)
qed

subsection \<open>The extractors keep the views and select from the hand\<close>

lemma views_cards [simp]: "views hnd (h\<lparr>cards := x\<rparr>) = views hnd h"
  by (simp add: views_def)

lemma step_ok_False: "views hnd h \<Longrightarrow> step_ok hnd (Inr (False, h))"
  by (auto simp: step_ok_def)

lemma step_ok_True:
  "views hnd h \<Longrightarrow> selection_ok hnd cs \<Longrightarrow> step_ok hnd (Inr (True, h\<lparr>cards := Some cs\<rparr>))"
  by (auto simp: step_ok_def)

lemma step_ok_IndexError: "length hnd < 5 \<Longrightarrow> step_ok hnd (Inl IndexError)"
  by (simp add: step_ok_def)

lemma groups_cases:
  assumes "valid_hand hnd"
  obtains
    (none) "hnd = []" "group_by_same_value (value_view hnd) = []"
  | (one) v0 where "group_by_same_value (value_view hnd) = [hnd]" "hnd \<noteq> []"
      "\<forall>c \<in> set hnd. card_value c = v0"
  | (more) v0 v1 rest where
      "group_by_same_value (value_view hnd) = of_value hnd v0 # of_value hnd v1 # rest"
      "v0 \<noteq> v1" "of_value hnd v0 \<noteq> []" "of_value hnd v1 \<noteq> []"
proof -
  from groups_shape [of hnd] obtain vs where
    d: "distinct vs" and s: "set vs = {v \<in> set VALUES. of_value hnd v \<noteq> []}"
    and g: "group_by_same_value (value_view hnd) = map (of_value hnd) vs"
    by blast
  have mem: "card_value c \<in> set vs" if "c \<in> set hnd" for c
  proof -
    from that assms have "card_value c \<in> set VALUES"
      by (simp add: valid_hand_def list_all_iff valid_card_def)
    moreover from that have "c \<in> set (of_value hnd (card_value c))"
      by (simp add: of_value_def)
    then have "of_value hnd (card_value c) \<noteq> []" by auto
    ultimately show ?thesis using s by simp
  qed
  show thesis
  proof (cases vs)
    case Nil
    with mem have "hnd = []" by (cases hnd) auto
    with Nil g none show ?thesis by simp
  next
    case (Cons v0 vs')
    show ?thesis
    proof (cases vs')
      case Nil
      with Cons mem have all: "\<forall>c \<in> set hnd. card_value c = v0" by auto
      then have "of_value hnd v0 = hnd" by (simp add: of_value_def)
      moreover from Cons s have "of_value hnd v0 \<noteq> []" by auto
      ultimately show ?thesis using one [of v0] g Cons Nil all by simp
    next
      case (Cons v1 rest)
      with \<open>vs = v0 # vs'\<close> d s g show ?thesis
        by (intro more [of v0 v1 "map (of_value hnd) rest"]) auto
    qed
  qed
qed

lemma of_value_disjoint:
  "v0 \<noteq> v1 \<Longrightarrow> mset (of_value hnd v0) + mset (of_value hnd v1) \<subseteq># mset hnd"
  by (rule mset_subset_eqI) (auto simp: of_value_def)

lemma only_two_values:
  assumes "v0 \<noteq> v1" and "\<forall>c \<in> set hnd. c \<in> set (of_value hnd v0 @ of_value hnd v1)"
  shows "length hnd = length (of_value hnd v0) + length (of_value hnd v1)"
proof -
  have "filter (\<lambda>c. \<not> card_value c = v0) hnd = filter (\<lambda>c. card_value c = v1) hnd"
    using assms by (intro filter_cong) (auto simp: of_value_def)
  then show ?thesis
    using sum_length_filter_compl [of "\<lambda>c. card_value c = v0" hnd]
    by (simp add: of_value_def)
qed

lemma complete_loop_four:
  "length cs = 4 \<Longrightarrow>
   (if \<exists>c \<in> set s. c \<notin> set cs
    then \<exists>c \<in> set s. c \<notin> set cs \<and> complete_loop s cs = cs @ [c]
    else complete_loop s cs = cs)"
  by (induction s) (auto simp: Let_def)

lemma sequences_shape:
  "\<forall>w \<in> set sequences. length w = 5 \<and> distinct w \<and> set w \<subseteq> set VALUES"
proof -
  have "list_all (\<lambda>w. length w = 5 \<and> distinct w \<and> list_all (\<lambda>v. v \<in> set VALUES) w) sequences"
    by code_simp
  then show ?thesis by (auto simp: list_all_iff)
qed

lemma straight_loop_views:
  assumes "by_value h = value_view hnd" and "\<forall>w \<in> set ws. set w \<subseteq> set VALUES"
  shows "straight_loop ws h = Inr (False, h)
    \<or> (\<exists>w \<in> set ws. (\<forall>v \<in> set w. of_value hnd v \<noteq> [])
          \<and> straight_loop ws h = Inr (True, h\<lparr>cards := Some (map (\<lambda>v. hd (of_value hnd v)) w)\<rparr>))"
  using assms
proof (induction ws)
  case Nil
  then show ?case by simp
next
  case (Cons w ws)
  show ?case
  proof (cases "\<forall>v \<in> set w. of_value hnd v \<noteq> []")
    case True
    with Cons.prems show ?thesis
      by (simp add: all_present_view first_cards_view)
  next
    case False
    with Cons.prems have "all_present (by_value h) w = Inr False"
      by (simp add: all_present_view)
    then have "straight_loop (w # ws) h = straight_loop ws h"
      by simp
    with Cons show ?thesis by auto
  qed
qed

lemma extract_straight_cases:
  assumes "views hnd h"
  shows "extract_straight h = Inr (False, h)
    \<or> (\<exists>cs. extract_straight h = Inr (True, h\<lparr>cards := Some cs\<rparr>)
          \<and> length cs = 5 \<and> mset cs \<subseteq># mset hnd)"
proof -
  from assms have bv: "by_value h = value_view hnd" by (simp add: views_def)
  from straight_loop_views [OF bv, of sequences] sequences_shape
  consider "straight_loop sequences h = Inr (False, h)"
    | w where "w \<in> set sequences" "\<forall>v \<in> set w. of_value hnd v \<noteq> []"
        "straight_loop sequences h = Inr (True, h\<lparr>cards := Some (map (\<lambda>v. hd (of_value hnd v)) w)\<rparr>)"
    by blast
  then show ?thesis
  proof cases
    case 1
    then show ?thesis by (simp add: extract_straight_def)
  next
    case 2
    from 2(1) sequences_shape have "length w = 5" "distinct w" by auto
    from \<open>distinct w\<close> 2(2) have "mset (map (\<lambda>v. hd (of_value hnd v)) w) \<subseteq># mset hnd"
      by (rule window_cards)
    with 2(3) \<open>length w = 5\<close> show ?thesis
      by (auto simp: extract_straight_def)
  qed
qed

lemma extract_straight_flush_cases:
  assumes "views hnd h"
  shows "extract_straight_flush h = Inr (False, h\<lparr>cards := None\<rparr>)
    \<or> (\<exists>cs. extract_straight_flush h = Inr (True, h\<lparr>cards := Some cs\<rparr>)
          \<and> length cs = 5 \<and> mset cs \<subseteq># mset hnd)"
  using extract_straight_cases [OF assms]
  by (auto simp: extract_straight_flush_def)

lemma extract_royal_flush_cases:
  assumes "views hnd h"
  shows "extract_royal_flush h = Inr (False, h\<lparr>cards := None\<rparr>)
    \<or> (\<exists>cs. extract_royal_flush h = Inr (True, h\<lparr>cards := Some cs\<rparr>)
          \<and> length cs = 5 \<and> mset cs \<subseteq># mset hnd)"
proof -
  from extract_straight_flush_cases [OF assms]
  consider "extract_straight_flush h = Inr (False, h\<lparr>cards := None\<rparr>)"
    | cs where "extract_straight_flush h = Inr (True, h\<lparr>cards := Some cs\<rparr>)"
        "length cs = 5" "mset cs \<subseteq># mset hnd"
    by blast
  then show ?thesis
  proof cases
    case 1
    then show ?thesis by (simp add: extract_royal_flush_def)
  next
    case 2
    from 2(2) have "cs \<noteq> []" by auto
    with 2 show ?thesis by (auto simp: extract_royal_flush_def)
  qed
qed

lemma step_ok_of_cases:
  assumes "views hnd h"
    and "res = Inr (False, h) \<or> res = Inr (False, h\<lparr>cards := None\<rparr>)
      \<or> (\<exists>cs. res = Inr (True, h\<lparr>cards := Some cs\<rparr>) \<and> length cs = 5 \<and> mset cs \<subseteq># mset hnd)"
  shows "step_ok hnd res"
  using assms by (auto simp: step_ok_def selection_ok_def)

lemma extract_n_of_a_kind_ok:
  assumes "valid_hand hnd" and "views hnd h"
  shows "step_ok hnd (extract_n_of_a_kind n h)"
proof -
  from assms(2) have g: "groups h = group_by_same_value (value_view hnd)"
    by (simp add: views_def)
  from assms(1) show ?thesis
  proof (cases rule: groups_cases)
    case none
    with g show ?thesis
      by (simp add: extract_n_of_a_kind_def step_ok_IndexError)
  next
    case (one v0)
    with g assms(2) show ?thesis
      by (cases hnd) (simp_all add: extract_n_of_a_kind_def card_ne_int_def step_ok_False)
  next
    case (more v0 v1 rest)
    with g assms(2) show ?thesis
      by (cases "of_value hnd v0")
        (simp_all add: extract_n_of_a_kind_def card_ne_int_def step_ok_False)
  qed
qed

lemma extract_full_house_ok:
  assumes "valid_hand hnd" and "views hnd h"
  shows "step_ok hnd (extract_full_house h)"
proof -
  from assms(2) have g: "groups h = group_by_same_value (value_view hnd)"
    by (simp add: views_def)
  from assms(1) show ?thesis
  proof (cases rule: groups_cases)
    case none
    with g show ?thesis
      by (simp add: extract_full_house_def step_ok_IndexError)
  next
    case (one v0)
    with g assms(2) show ?thesis
      by (simp add: extract_full_house_def step_ok_IndexError step_ok_False)
  next
    case (more v0 v1 rest)
    have "mset (of_value hnd v0 @ take 2 (of_value hnd v1)) \<subseteq># mset hnd"
    proof -
      have "mset (take 2 (of_value hnd v1)) \<subseteq># mset (of_value hnd v1)"
        using mset_subset_eq_add_left [of "mset (take 2 (of_value hnd v1))" "mset (drop 2 (of_value hnd v1))"]
        by (simp flip: mset_append)
      then have "mset (of_value hnd v0) + mset (take 2 (of_value hnd v1))
          \<subseteq># mset (of_value hnd v0) + mset (of_value hnd v1)"
        by simp
      from subset_mset.order_trans [OF this of_value_disjoint [OF more(2), of hnd]]
      show ?thesis by simp
    qed
    with more g assms(2) show ?thesis
      by (auto simp: extract_full_house_def step_ok_False selection_ok_def
          intro!: step_ok_True)
  qed
qed

lemma extract_two_pairs_ok:
  assumes "valid_hand hnd" and "views hnd h"
  shows "step_ok hnd (extract_two_pairs h)"
proof -
  from assms(2) have g: "groups h = group_by_same_value (value_view hnd)"
    and sv: "sorted_by_value h = sort_by_value hnd"
    by (simp_all add: views_def)
  from assms(1) show ?thesis
  proof (cases rule: groups_cases)
    case none
    with g show ?thesis
      by (simp add: extract_two_pairs_def step_ok_IndexError)
  next
    case (one v0)
    with g assms(2) show ?thesis
      by (simp add: extract_two_pairs_def step_ok_IndexError step_ok_False)
  next
    case (more v0 v1 rest)
    let ?cs = "of_value hnd v0 @ of_value hnd v1"
    show ?thesis
    proof (cases "length (of_value hnd v0) = 2 \<and> length (of_value hnd v1) = 2")
      case False
      with more g assms(2) show ?thesis
        by (auto simp: extract_two_pairs_def step_ok_False)
    next
      case True
      then have len: "length ?cs = 4" by simp
      have set_s: "set (sort_by_value hnd) = set hnd"
        by (simp add: sort_by_value_def)
      have base: "mset ?cs \<subseteq># mset hnd"
        using of_value_disjoint [OF more(2), of hnd] by simp
      have sel: "selection_ok hnd (complete_loop (sort_by_value hnd) ?cs)"
      proof (cases "\<exists>c \<in> set hnd. c \<notin> set ?cs")
        case True
        with complete_loop_four [OF len, of "sort_by_value hnd"] set_s
        obtain c where c: "c \<in> set hnd" "c \<notin> set ?cs"
          "complete_loop (sort_by_value hnd) ?cs = ?cs @ [c]"
          by auto
        from c(1,2) have "card_value c \<noteq> v0" "card_value c \<noteq> v1"
          by (auto simp: of_value_def)
        with c(1) more(2) have "mset (?cs @ [c]) \<subseteq># mset hnd"
          by (intro mset_subset_eqI) (auto simp: of_value_def Suc_le_eq)
        with c(3) len show ?thesis by (simp add: selection_ok_def)
      next
        case False
        with complete_loop_four [OF len, of "sort_by_value hnd"] set_s
        have "complete_loop (sort_by_value hnd) ?cs = ?cs" by auto
        moreover from False only_two_values [OF more(2), of hnd] True
        have "length hnd = 4" by auto
        ultimately show ?thesis using base by (simp add: selection_ok_def)
      qed
      from True more g sv have "extract_two_pairs h
          = Inr (True, h\<lparr>cards := Some (complete_loop (sort_by_value hnd) ?cs)\<rparr>)"
        by (simp add: extract_two_pairs_def complete_hand_def)
      with sel assms(2) show ?thesis by (simp add: step_ok_True)
    qed
  qed
qed

lemma extract_flush_ok:
  assumes "views hnd h"
  shows "step_ok hnd (extract_flush h)"
proof -
  define fl where "fl = filter (\<lambda>lst. length lst = 5) (map snd (by_suit h))"
  define fl' where "fl' = sorted_reverse (\<lambda>x. Card_sort_key (x ! 0)) fl"
  show ?thesis
  proof (cases "fl = []")
    case True
    with assms show ?thesis
      by (simp add: extract_flush_def fl_def step_ok_False)
  next
    case False
    then have "fl' \<noteq> []"
      using length_sorted_reverse [of "\<lambda>x. Card_sort_key (x ! 0)" fl]
      by (auto simp: fl'_def simp del: length_sorted_reverse)
    then have "fl' ! 0 \<in> set fl'"
      by (cases fl') simp_all
    then have mem: "fl' ! 0 \<in> set fl" by (simp add: fl'_def)
    then have len: "length (fl' ! 0) = 5" by (simp add: fl_def)
    from mem assms obtain s where "fl' ! 0 = filter (\<lambda>c. card_suit c = s) (sort_by_value hnd)"
      by (auto simp: fl_def views_def suit_view_def)
    then have "mset (fl' ! 0) \<subseteq># mset (sort_by_value hnd)"
      by simp
    then have "mset (fl' ! 0) \<subseteq># mset hnd" by simp
    with len have "selection_ok hnd (fl' ! 0)" by (simp add: selection_ok_def)
    moreover from False have "extract_flush h = Inr (True, h\<lparr>cards := Some (fl' ! 0)\<rparr>)"
      by (simp add: extract_flush_def Let_def fl_def fl'_def)
    ultimately show ?thesis using assms by (simp add: step_ok_True)
  qed
qed

lemma extract_high_card_ok:
  assumes "views hnd h"
  shows "extract_high_card h = Inr (True, h\<lparr>cards := Some (take 5 (sort_by_value hnd))\<rparr>)
    \<and> selection_ok hnd (take 5 (sort_by_value hnd))"
proof -
  have "mset (take 5 (sort_by_value hnd)) \<subseteq># mset (sort_by_value hnd)"
    using mset_subset_eq_add_left [of "mset (take 5 (sort_by_value hnd))" "mset (drop 5 (sort_by_value hnd))"]
    by (simp flip: mset_append)
  moreover have "length (sort_by_value hnd) = length hnd"
    by (simp add: sort_by_value_def)
  ultimately have "selection_ok hnd (take 5 (sort_by_value hnd))"
    by (simp add: selection_ok_def)
  with assms show ?thesis
    by (simp add: extract_high_card_def views_def)
qed

subsection \<open>The cascade\<close>

lemma extract_rank_ok:
  assumes "valid_hand hnd" and "views hnd h"
  shows "step_ok hnd (extract_rank r h)"
proof (cases r)
  case royal_flush
  with step_ok_of_cases [OF assms(2)] extract_royal_flush_cases [OF assms(2)]
  show ?thesis by auto
next
  case straight_flush
  with step_ok_of_cases [OF assms(2)] extract_straight_flush_cases [OF assms(2)]
  show ?thesis by auto
next
  case four_of_a_kind
  with extract_n_of_a_kind_ok [OF assms] show ?thesis
    by (simp add: extract_four_of_a_kind_def)
next
  case full_house
  with extract_full_house_ok [OF assms] show ?thesis by simp
next
  case flush
  with extract_flush_ok [OF assms(2)] show ?thesis by simp
next
  case straight
  with step_ok_of_cases [OF assms(2)] extract_straight_cases [OF assms(2)]
  show ?thesis by auto
next
  case three_of_a_kind
  with extract_n_of_a_kind_ok [OF assms] show ?thesis
    by (simp add: extract_three_of_a_kind_def)
next
  case two_pairs
  with extract_two_pairs_ok [OF assms] show ?thesis by simp
next
  case pair
  with extract_n_of_a_kind_ok [OF assms] show ?thesis
    by (simp add: extract_pair_def)
next
  case high_card
  with extract_high_card_ok [OF assms(2)] assms(2) show ?thesis
    by (simp add: step_ok_True)
qed

lemma evaluate_loop_ok:
  assumes "valid_hand hnd"
  shows "views hnd h \<Longrightarrow> high_card \<in> set rs \<Longrightarrow> eval_ok hnd (evaluate_loop rs h)"
proof (induction rs arbitrary: h)
  case Nil
  then show ?case by simp
next
  case (Cons r rs)
  from extract_rank_ok [OF assms Cons.prems(1), of r]
  consider "extract_rank r h = Inl IndexError" "length hnd < 5"
    | h' cs where "extract_rank r h = Inr (True, h')" "views hnd h'"
        "cards h' = Some cs" "selection_ok hnd cs"
    | h' where "extract_rank r h = Inr (False, h')" "views hnd h'"
    unfolding step_ok_def by (metis (full_types))
  then show ?case
  proof cases
    case 1
    then show ?thesis by (simp add: eval_ok_def)
  next
    case 2
    then show ?thesis by (simp add: eval_ok_def)
  next
    case 3
    from 3(1) extract_high_card_ok [OF Cons.prems(1)] have "r \<noteq> high_card"
      by auto
    with Cons.prems(2) have "high_card \<in> set rs" by simp
    with Cons.IH [OF 3(2)] 3(1) show ?thesis by simp
  qed
qed

lemma evaluate_ok:
  "valid_hand hnd \<Longrightarrow> views hnd h \<Longrightarrow> eval_ok hnd (evaluate h)"
  unfolding evaluate_def by (rule evaluate_loop_ok) (simp_all add: RANKS_def)

lemma HandEvaluator_ok:
  assumes "valid_hand hnd"
  shows "(HandEvaluator hnd = Inl IndexError \<and> length hnd < 5)
    \<or> (\<exists>h. HandEvaluator hnd = Inr h \<and> views hnd h)"
proof -
  define h0 where "h0 = \<lparr>hand = hnd, cards = None, sorted_by_value = sort_by_value hnd,
      by_suit = suit_view (sort_by_value hnd), by_value = value_view hnd,
      groups = group_by_same_value (value_view hnd)\<rparr>"
  have v0: "views hnd h0" by (simp add: views_def h0_def)
  from assms have "valid_hand (sort_by_value hnd)"
    by (simp add: valid_hand_sort_by_value)
  with assms have "HandEvaluator hnd = bindE (evaluate h0) (\<lambda>(_, h'). Inr h')"
    by (simp add: HandEvaluator_def Let_def arrange_by_suit_valid arrange_by_value_valid h0_def)
  with evaluate_ok [OF assms v0] show ?thesis
    by (auto simp: eval_ok_def)
qed

lemma hand_eval_ok:
  assumes "valid_hand hnd"
  shows "(hand_eval hnd = Inl IndexError \<and> length hnd < 5)
    \<or> (\<exists>r cs. hand_eval hnd = Inr (r, Some cs) \<and> selection_ok hnd cs)"
proof -
  from HandEvaluator_ok [OF assms]
  consider "HandEvaluator hnd = Inl IndexError" "length hnd < 5"
    | h where "HandEvaluator hnd = Inr h" "views hnd h"
    by blast
  then show ?thesis
  proof cases
    case 1
    then show ?thesis by (simp add: hand_eval_def)
  next
    case 2
    with evaluate_ok [OF assms 2(2)] show ?thesis
      by (auto simp: hand_eval_def eval_ok_def)
  qed
qed

subsection \<open>Hands built by \<open>into_hand\<close> are valid\<close>

lemma Card_valid: "Card code = Inr c \<Longrightarrow> valid_card c"
  by (auto simp: Card_def Let_def valid_card_def split: if_splits)

lemma mapE_Card_valid: "mapE Card codes = Inr hnd \<Longrightarrow> valid_hand hnd"
proof (induction codes arbitrary: hnd)
  case Nil
  then show ?case by (simp add: valid_hand_def)
next
  case (Cons code codes)
  then show ?case
    by (auto simp: valid_hand_def bindE_def Card_valid split: sum.splits)
qed

lemma into_hand_valid: "into_hand s = Inr hnd \<Longrightarrow> valid_hand hnd"
  unfolding into_hand_def by (rule mapE_Card_valid)

subsection \<open>Evaluation of a hand\<close>

text \<open>
  C7. For every hand of at least 5 (valid) cards, evaluation returns a category and
  exactly 5 cards, which are cards of the hand: no card is selected more often than the
  hand holds it, and none is invented.
\<close>

theorem evaluate_selects_five_cards:
  assumes "5 \<le> length hnd" and "valid_hand hnd"
  shows "\<exists>r cs. hand_eval hnd = Inr (r, Some cs) \<and> length cs = 5 \<and> mset cs \<subseteq># mset hnd"
  using hand_eval_ok [OF assms(2)] assms(1)
  by (auto simp: selection_ok_def)

theorem evaluate_selects_five_cards_witness:
  "5 \<le> length [\<lparr>card_value = CHR ''2'', card_suit = CHR ''H''\<rparr>,
                \<lparr>card_value = CHR ''2'', card_suit = CHR ''D''\<rparr>,
                \<lparr>card_value = CHR ''2'', card_suit = CHR ''S''\<rparr>,
                \<lparr>card_value = CHR ''3'', card_suit = CHR ''H''\<rparr>,
                \<lparr>card_value = CHR ''3'', card_suit = CHR ''D''\<rparr>,
                \<lparr>card_value = CHR ''9'', card_suit = CHR ''C''\<rparr>,
                \<lparr>card_value = CHR ''4'', card_suit = CHR ''C''\<rparr>]
   \<and> valid_hand [\<lparr>card_value = CHR ''2'', card_suit = CHR ''H''\<rparr>,
                \<lparr>card_value = CHR ''2'', card_suit = CHR ''D''\<rparr>,
                \<lparr>card_value = CHR ''2'', card_suit = CHR ''S''\<rparr>,
                \<lparr>card_value = CHR ''3'', card_suit = CHR ''H''\<rparr>,
                \<lparr>card_value = CHR ''3'', card_suit = CHR ''D''\<rparr>,
                \<lparr>card_value = CHR ''9'', card_suit = CHR ''C''\<rparr>,
                \<lparr>card_value = CHR ''4'', card_suit = CHR ''C''\<rparr>]
   \<and> (\<exists>r cs. hand_eval [\<lparr>card_value = CHR ''2'', card_suit = CHR ''H''\<rparr>,
                \<lparr>card_value = CHR ''2'', card_suit = CHR ''D''\<rparr>,
                \<lparr>card_value = CHR ''2'', card_suit = CHR ''S''\<rparr>,
                \<lparr>card_value = CHR ''3'', card_suit = CHR ''H''\<rparr>,
                \<lparr>card_value = CHR ''3'', card_suit = CHR ''D''\<rparr>,
                \<lparr>card_value = CHR ''9'', card_suit = CHR ''C''\<rparr>,
                \<lparr>card_value = CHR ''4'', card_suit = CHR ''C''\<rparr>] = Inr (r, Some cs)
          \<and> length cs = 5
          \<and> mset cs \<subseteq># mset [\<lparr>card_value = CHR ''2'', card_suit = CHR ''H''\<rparr>,
                \<lparr>card_value = CHR ''2'', card_suit = CHR ''D''\<rparr>,
                \<lparr>card_value = CHR ''2'', card_suit = CHR ''S''\<rparr>,
                \<lparr>card_value = CHR ''3'', card_suit = CHR ''H''\<rparr>,
                \<lparr>card_value = CHR ''3'', card_suit = CHR ''D''\<rparr>,
                \<lparr>card_value = CHR ''9'', card_suit = CHR ''C''\<rparr>,
                \<lparr>card_value = CHR ''4'', card_suit = CHR ''C''\<rparr>])"
  (is "?len \<and> ?valid \<and> ?res")
proof -
  have len: ?len by simp
  have valid: ?valid
    by (simp add: valid_hand_def valid_card_def VALUES_def SUITS_def)
  from evaluate_selects_five_cards [OF len valid] have ?res .
  with len valid show ?thesis by blast
qed

text \<open>
  C8 (amended). A hand of fewer than 5 (valid) cards is not rejected before
  evaluation: it is evaluated, and the evaluation either fails with \<open>IndexError\<close> or
  returns a category with fewer than 5 cards of the hand.
\<close>

theorem short_hand_not_rejected:
  assumes "length hnd < 5" and "valid_hand hnd"
  shows "hand_eval hnd = Inl IndexError
    \<or> (\<exists>r cs. hand_eval hnd = Inr (r, Some cs) \<and> length cs < 5 \<and> mset cs \<subseteq># mset hnd)"
proof -
  have "length cs < 5" if "mset cs \<subseteq># mset hnd" for cs
    using size_mset_mono [OF that] assms(1) by simp
  with hand_eval_ok [OF assms(2)] show ?thesis
    by (auto simp: selection_ok_def)
qed

theorem short_hand_not_rejected_witness:
  "length [\<lparr>card_value = CHR ''A'', card_suit = CHR ''S''\<rparr>,
           \<lparr>card_value = CHR ''A'', card_suit = CHR ''D''\<rparr>] < 5
   \<and> valid_hand [\<lparr>card_value = CHR ''A'', card_suit = CHR ''S''\<rparr>,
                \<lparr>card_value = CHR ''A'', card_suit = CHR ''D''\<rparr>]
   \<and> (hand_eval [\<lparr>card_value = CHR ''A'', card_suit = CHR ''S''\<rparr>,
                 \<lparr>card_value = CHR ''A'', card_suit = CHR ''D''\<rparr>] = Inl IndexError
       \<or> (\<exists>r cs. hand_eval [\<lparr>card_value = CHR ''A'', card_suit = CHR ''S''\<rparr>,
                 \<lparr>card_value = CHR ''A'', card_suit = CHR ''D''\<rparr>] = Inr (r, Some cs)
            \<and> length cs < 5
            \<and> mset cs \<subseteq># mset [\<lparr>card_value = CHR ''A'', card_suit = CHR ''S''\<rparr>,
                 \<lparr>card_value = CHR ''A'', card_suit = CHR ''D''\<rparr>]))"
  (is "?len \<and> ?valid \<and> ?res")
proof -
  have len: ?len by simp
  have valid: ?valid
    by (simp add: valid_hand_def valid_card_def VALUES_def SUITS_def)
  from short_hand_not_rejected [OF len valid] have ?res .
  with len valid show ?thesis by blast
qed

subsection \<open>Facts about the loop of winners, the clusters of n and the flush\<close>

text \<open>
  No key equals a pair of a key and an index, so the loop of \<open>find_winners\<close> adds
  nothing to the first index.
\<close>

lemma py_key_neq_py_entry: "py_key k \<noteq> py_entry e"
  by (simp add: py_key_def py_entry_def)

lemma winners_loop_empty: "winners_loop max_rank rest = []"
  by (cases rest) (auto simp: py_key_neq_py_entry)

lemma find_winners_one_index: "find_winners hands = Inr ws \<Longrightarrow> length ws = 1"
  by (auto simp: find_winners_def bindE_def winners_loop_empty split: sum.splits list.splits)

text \<open>\<open>extract_n_of_a_kind\<close> succeeds on no evaluator, for no \<open>n\<close>.\<close>

lemma extract_n_of_a_kind_fails: "extract_n_of_a_kind n h \<noteq> Inr (True, h')"
  by (simp add: extract_n_of_a_kind_def card_ne_int_def split: list.splits)

text \<open>\<open>extract_flush\<close> succeeds exactly when a suit has five cards, no more and no less.\<close>

lemma extract_flush_found:
  "(\<exists>h'. extract_flush h = Inr (True, h')) = (\<exists>lst \<in> set (map snd (by_suit h)). length lst = 5)"
  by (auto simp: extract_flush_def Let_def filter_empty_conv)

subsection \<open>Evaluations of concrete hands\<close>

text \<open>
  C1 (the code differs). The two hands of scenario 3 get the same key, yet
  \<open>find_winners\<close> returns the index 1 alone: the list is sorted in descending order of
  the pairs of key and index, and the loop compares each key with the whole first pair,
  which no key equals.
\<close>

theorem find_winners_tie_returns_one_index:
  "bindE (mapE into_hand [''AS KS QS JD 2C 3D 4H'', ''AH KH QH JD 2C 3D 4H'']) (mapE hand_key)
     = Inr [(1, [12, 11, 10, 9, 2]), (1, [12, 11, 10, 9, 2])]
   \<and> bindE (mapE into_hand [''AS KS QS JD 2C 3D 4H'', ''AH KH QH JD 2C 3D 4H'']) find_winners
     = Inr [1]"
  by code_simp

text \<open>
  C2 (the code differs). The windows are cut from \<open>AQKJT98765432A\<close>, so the third is
  K, J, T, 9, 8 and no window is Q, J, T, 9, 8: the queen-high straight is not found,
  and K, J, T, 9, 8 is taken for a straight, its cards in the order of the window.
\<close>

theorem extract_straight_windows:
  "sequences = [''AQKJT'', ''QKJT9'', ''KJT98'', ''JT987'', ''T9876'', ''98765'',
                ''87654'', ''76543'', ''65432'', ''5432A'']
   \<and> bindE (into_hand ''QS JD TC 9H 8S 3D 2C'') (\<lambda>hnd.
        bindE (HandEvaluator hnd) (\<lambda>h.
        bindE (extract_straight h) (\<lambda>(found, _). Inr found))) = Inr False
   \<and> reported (bindE (into_hand ''QS JD TC 9H 8S 3D 2C'') hand_eval)
       = Inr (high_card, Some [''QS'', ''JD'', ''TC'', ''9H'', ''8S''])
   \<and> reported (bindE (into_hand ''KS JD TC 9H 8S 3D 2C'') hand_eval)
       = Inr (straight, Some [''KS'', ''JD'', ''TC'', ''9H'', ''8S''])
   \<and> reported (bindE (into_hand ''AS KD QC JH TS 3D 2C'') hand_eval)
       = Inr (straight, Some [''AS'', ''QC'', ''KD'', ''JH'', ''TS''])"
  by code_simp

text \<open>
  C3 (the code differs). The hand of scenario 5 holds four fours; \<open>extract_n_of_a_kind\<close>
  compares a card with the number 4 and never succeeds, so the hand falls through to
  High Card.
\<close>

theorem four_fours_evaluate_to_high_card:
  "bindE (into_hand ''4C 4D 4H 4S 9C 9D 9H'') (\<lambda>hnd.
     bindE (HandEvaluator hnd) (\<lambda>h.
     bindE (extract_four_of_a_kind h) (\<lambda>(found, _). Inr found))) = Inr False
   \<and> reported (bindE (into_hand ''4C 4D 4H 4S 9C 9D 9H'') hand_eval)
       = Inr (high_card, Some [''9C'', ''9D'', ''9H'', ''4C'', ''4D''])"
  by code_simp

text \<open>
  C4 (the code differs). Clusters of the same size are ordered by the code point of the
  value symbol, in which \<open>T\<close> is above \<open>A\<close>: the ten comes before the ace.
\<close>

theorem group_by_same_value_ten_before_ace:
  "map_sum id (\<lambda>bv. map (map repr) (group_by_same_value bv))
     (bindE (into_hand ''AS TD'') arrange_by_value) = Inr [[''TD''], [''AS'']]"
  by code_simp

text \<open>
  C5 (the code differs). Six spades: \<open>extract_flush\<close> keeps the suit lists of length
  exactly 5, finds none, and the hand is evaluated as High Card.
\<close>

theorem six_spades_not_flush:
  "bindE (into_hand ''AS KS QS 9S 7S 3S 2D'') (\<lambda>hnd.
     bindE (HandEvaluator hnd) (\<lambda>h.
     bindE (extract_flush h) (\<lambda>(found, _). Inr found))) = Inr False
   \<and> reported (bindE (into_hand ''AS KS QS 9S 7S 3S 2D'') hand_eval)
       = Inr (high_card, Some [''AS'', ''KS'', ''QS'', ''9S'', ''7S''])"
  by code_simp

text \<open>
  C6 (as stated, refuted). The hand of scenario 4 holds K, Q, J, T, 9: its category is
  Straight, not High Card.
\<close>

theorem scenario_4_not_high_card:
  "map_sum id fst (bindE (into_hand ''2C 7D 9H TC QS JD KH'') hand_eval) = Inr straight
   \<and> map_sum id fst (bindE (into_hand ''2C 7D 9H TC QS JD KH'') hand_eval) \<noteq> Inr high_card"
  by code_simp

text \<open>
  C6 (amended). Evaluating the hand 2C 7D 9H TC QS JD KH yields the category Straight,
  and the five selected cards are KH, QS, JD, TC and 9H.
\<close>

theorem scenario_4_is_straight:
  "map_sum id (\<lambda>(r, cs). (r, map_option (\<lambda>l. set (map repr l)) cs))
     (bindE (into_hand ''2C 7D 9H TC QS JD KH'') hand_eval)
   = Inr (straight, Some {''KH'', ''QS'', ''JD'', ''TC'', ''9H''})"
proof -
  have "reported (bindE (into_hand ''2C 7D 9H TC QS JD KH'') hand_eval)
      = Inr (straight, Some [''QS'', ''KH'', ''JD'', ''TC'', ''9H''])"
    by code_simp
  then show ?thesis
    by (cases "bindE (into_hand ''2C 7D 9H TC QS JD KH'') hand_eval")
      (auto simp: reported_def)
qed

text \<open>
  C8 (as stated, refuted). A hand of one card is not rejected: it is evaluated as High
  Card with that one card, and \<open>find_winners\<close> returns its index.
\<close>

theorem short_hand_is_evaluated:
  "reported (bindE (into_hand ''AS'') hand_eval) = Inr (high_card, Some [''AS''])
   \<and> bindE (mapE into_hand [''AS'']) find_winners = Inr [0]"
  by code_simp

text \<open>
  C9. On the empty sequence of hands \<open>find_winners\<close> fails with \<open>IndexError\<close>, raised
  by \<open>hands_ranks[0]\<close>.
\<close>

theorem find_winners_empty:
  "find_winners [] = Inl IndexError"
  by code_simp

end
